theory Spec2Isabelle
  imports Complex_Main "HOL-Library.Extended_Nat"
begin

section \<open>Hexagonal grid (HexGrid.js)\<close>

text \<open>
  Axial coordinates are pairs \<open>(q, r)\<close> of integers.  JavaScript numbers that hold
  grid coordinates, distances and action points are modelled as \<open>int\<close>; fractional
  coordinates (pixel conversion, line interpolation) are modelled as \<open>real\<close>.
  The grid object is represented by its \<open>gridRadius\<close>: the field \<open>hexes\<close> is
  assigned once in the constructor as \<open>generateHexGrid()\<close> and never changed.
\<close>

type_synonym hex = "int \<times> int"

text \<open>An entry of \<open>hexes\<close>: the object \<open>{ q, r, s: -q - r }\<close>.\<close>

type_synonym cube = "int \<times> int \<times> int"

definition generateHexGrid :: "int \<Rightarrow> cube list" where
  "generateHexGrid radius =
     concat (map (\<lambda>q. map (\<lambda>r. (q, r, - q - r))
                          [max (- radius) (- q - radius) .. min radius (- q + radius)])
                 [- radius .. radius])"

definition isValidHex :: "int \<Rightarrow> int \<Rightarrow> int \<Rightarrow> bool" where
  "isValidHex radius q r =
     list_ex (\<lambda>h. fst h = q \<and> fst (snd h) = r) (generateHexGrid radius)"

definition directions :: "hex list" where
  "directions = [(1, 0), (1, -1), (0, -1), (-1, 0), (-1, 1), (0, 1)]"

definition getNeighbors :: "int \<Rightarrow> int \<Rightarrow> int \<Rightarrow> hex list" where
  "getNeighbors radius q r =
     filter (\<lambda>h. isValidHex radius (fst h) (snd h))
            (map (\<lambda>d. (q + fst d, r + snd d)) directions)"

text \<open>
  \<open>getDistance\<close> divides by two with JavaScript's floating division; on integer
  coordinates the dividend is even (lemma \<open>getDistance_dividend_even\<close> below), so the
  quotient is the integer given by \<open>div\<close>.
\<close>

definition getDistance :: "int \<Rightarrow> int \<Rightarrow> int \<Rightarrow> int \<Rightarrow> int" where
  "getDistance q1 r1 q2 r2 =
     (\<bar>q1 - q2\<bar> + \<bar>q1 + r1 - q2 - r2\<bar> + \<bar>r1 - r2\<bar>) div 2"

subsection \<open>Rounding of fractional coordinates\<close>

text \<open>
  \<open>Math.round\<close> returns the nearest integer, a tie going up.  The fractional
  coordinates are JavaScript doubles; they are modelled as real numbers (every finite
  double is one), and the subtractions and comparisons inside the rounding routines
  are taken exactly.
\<close>

definition js_round :: "real \<Rightarrow> int" where
  "js_round x = \<lfloor>x + 1 / 2\<rfloor>"


definition roundCube :: "real \<Rightarrow> real \<Rightarrow> real \<Rightarrow> hex" where
  "roundCube q r s =
     (let rq = js_round q; rr = js_round r; rs = js_round s;
          qDiff = \<bar>of_int rq - q\<bar>; rDiff = \<bar>of_int rr - r\<bar>; sDiff = \<bar>of_int rs - s\<bar>
      in if qDiff > rDiff \<and> qDiff > sDiff then (- rr - rs, rr)
         else if rDiff > sDiff then (rq, - rq - rs)
         else (rq, rr))"


subsection \<open>Line of sight\<close>

text \<open>The fractional cube coordinates of sample \<open>i\<close> of the \<open>N + 1\<close> samples.\<close>

definition lineSample :: "int \<Rightarrow> int \<Rightarrow> int \<Rightarrow> int \<Rightarrow> int \<Rightarrow> int \<Rightarrow> real \<times> real \<times> real" where
  "lineSample q1 r1 q2 r2 N i =
     (let s1 = - q1 - r1; s2 = - q2 - r2;
          t = of_int i / of_int N;
          q = of_int q1 + (of_int q2 - of_int q1) * t;
          r = of_int r1 + (of_int r2 - of_int r1) * t;
          s = of_int s1 + (of_int s2 - of_int s1) * t
      in (q, r, s))"

definition getHexLine :: "int \<Rightarrow> int \<Rightarrow> int \<Rightarrow> int \<Rightarrow> hex list" where
  "getHexLine q1 r1 q2 r2 =
     (let N = getDistance q1 r1 q2 r2
      in if N = 0 then [(q1, r1)]
         else map (\<lambda>i. case lineSample q1 r1 q2 r2 N i of (q, r, s) \<Rightarrow> roundCube q r s)
                  [0 .. N])"

text \<open>
  The loop of \<open>hasLineOfSight\<close> over the indices \<open>1, \<dots>, length - 2\<close>, returning
  \<open>false\<close> at the first blocked sample.
\<close>

fun losLoop :: "hex list \<Rightarrow> hex list \<Rightarrow> nat list \<Rightarrow> bool" where
  "losLoop lineHexes blockers [] = True"
| "losLoop lineHexes blockers (i # is) =
     (let h = lineHexes ! i;
          blocked = list_ex (\<lambda>b. fst b = fst h \<and> snd b = snd h) blockers
      in if blocked then False else losLoop lineHexes blockers is)"

definition hasLineOfSight :: "int \<Rightarrow> int \<Rightarrow> int \<Rightarrow> int \<Rightarrow> hex list \<Rightarrow> bool" where
  "hasLineOfSight q1 r1 q2 r2 blockers =
     (if q1 = q2 \<and> r1 = r2 then True
      else let lineHexes = getHexLine q1 r1 q2 r2
           in losLoop lineHexes blockers [1 ..< length lineHexes - 1])"

subsection \<open>Path finding\<close>

text \<open>
  The state of the search.  A key \<open>`${q},${r}`\<close> determines the pair \<open>(q, r)\<close>, so the
  maps and the closed set are keyed by the pair.  Scores are JavaScript numbers that
  may be \<open>Infinity\<close>: extended naturals.  An entry of the open set is
  \<open>{ q, r, f }\<close>.
\<close>

record search =
  openSet :: "(hex \<times> enat) list"
  closedSet :: "hex set"
  cameFrom :: "hex \<rightharpoonup> hex"
  gScore :: "hex \<rightharpoonup> enat"
  fScore :: "hex \<rightharpoonup> enat"

datatype path_result = NoPath | Path "hex list"

definition isBlocked :: "hex list \<Rightarrow> int \<Rightarrow> int \<Rightarrow> bool" where
  "isBlocked obstacles q r = list_ex (\<lambda>obs. fst obs = q \<and> snd obs = r) obstacles"

text \<open>\<open>gScore.get(currentKey) || Infinity\<close>: an absent score and the score 0 both give \<open>Infinity\<close>.\<close>

definition orInfinity :: "enat option \<Rightarrow> enat" where
  "orInfinity g = (case g of None \<Rightarrow> \<infinity> | Some v \<Rightarrow> if v = 0 then \<infinity> else v)"

text \<open>
  The body of the \<open>for\<close> loop over the neighbors of the current node, for one
  neighbor (a \<open>continue\<close> leaves the state as it is), and the loop.
\<close>

definition visitNeighbor :: "hex \<Rightarrow> int \<Rightarrow> int \<Rightarrow> hex list \<Rightarrow> search \<Rightarrow> hex \<Rightarrow> search" where
  "visitNeighbor current endQ endR obstacles s neighbor =
     (if neighbor \<in> closedSet s then s
      else if isBlocked obstacles (fst neighbor) (snd neighbor) then s
      else
        let tentativeG = orInfinity (gScore s current) + 1;
            existingG = gScore s neighbor
        in if (case existingG of None \<Rightarrow> True | Some e \<Rightarrow> tentativeG < e) then
             let h = getDistance (fst neighbor) (snd neighbor) endQ endR;
                 f = tentativeG + enat (nat h);
                 inOpen = list_ex (\<lambda>n. fst n = neighbor) (openSet s);
                 s' = s\<lparr>cameFrom := (cameFrom s)(neighbor \<mapsto> current),
                        gScore := (gScore s)(neighbor \<mapsto> tentativeG),
                        fScore := (fScore s)(neighbor \<mapsto> f)\<rparr>
             in if \<not> inOpen then s'\<lparr>openSet := openSet s' @ [(neighbor, f)]\<rparr> else s'
           else s)"

fun visitNeighbors :: "hex \<Rightarrow> int \<Rightarrow> int \<Rightarrow> hex list \<Rightarrow> search \<Rightarrow> hex list \<Rightarrow> search" where
  "visitNeighbors current endQ endR obstacles s [] = s"
| "visitNeighbors current endQ endR obstacles s (neighbor # rest) =
     visitNeighbors current endQ endR obstacles
       (visitNeighbor current endQ endR obstacles s neighbor) rest"

text \<open>
  Path reconstruction: \<open>while (curr) { path.unshift(curr); curr = cameFrom.get(\<dots>) }\<close>.
  The loop ends when the map has no entry; a result \<open>None\<close> of the model means that it
  never does.
\<close>

partial_function (option) reconstructPath :: "(hex \<rightharpoonup> hex) \<Rightarrow> hex \<Rightarrow> hex list \<Rightarrow> hex list option" where
  "reconstructPath cf node path =
     (case cf node of
        None \<Rightarrow> Some (node # path)
      | Some prev \<Rightarrow> reconstructPath cf prev (node # path))"

declare reconstructPath.simps [code]

text \<open>
  The main \<open>while\<close> loop.  \<open>Array.prototype.sort\<close> is stable and the comparator
  \<open>a.f - b.f\<close> orders by \<open>f\<close> (the difference of two infinite scores is \<open>NaN\<close>, which
  the sort takes as equal): the stable insertion sort \<open>sort_key\<close> on the \<open>f\<close> field.
  The result \<open>None\<close> of the model means that the loop does not return.
\<close>

partial_function (option) searchLoop :: "int \<Rightarrow> int \<Rightarrow> int \<Rightarrow> hex list \<Rightarrow> search \<Rightarrow> path_result option" where
  "searchLoop radius endQ endR obstacles s =
     (case sort_key snd (openSet s) of
        [] \<Rightarrow> Some NoPath
      | current # remaining \<Rightarrow>
          if fst current = (endQ, endR) then
            (case reconstructPath (cameFrom s) (endQ, endR) [] of
               None \<Rightarrow> None
             | Some path \<Rightarrow> Some (Path (tl path)))
          else
            searchLoop radius endQ endR obstacles
              (visitNeighbors (fst current) endQ endR obstacles
                 (s\<lparr>openSet := remaining, closedSet := insert (fst current) (closedSet s)\<rparr>)
                 (getNeighbors radius (fst (fst current)) (snd (fst current)))))"

declare searchLoop.simps [code]

definition findPath :: "int \<Rightarrow> int \<Rightarrow> int \<Rightarrow> int \<Rightarrow> int \<Rightarrow> hex list \<Rightarrow> path_result option" where
  "findPath radius startQ startR endQ endR obstacles =
     (let startH = enat (nat (getDistance startQ startR endQ endR))
      in searchLoop radius endQ endR obstacles
           \<lparr>openSet = [((startQ, startR), startH)],
            closedSet = {},
            cameFrom = Map.empty,
            gScore = [(startQ, startR) \<mapsto> 0],
            fScore = [(startQ, startR) \<mapsto> startH]\<rparr>)"

section \<open>Enemies and their turn (Enemy.js, BattleScene.js)\<close>

datatype ai_type = Melee | Ranged

text \<open>The \<open>type\<close> tag of an obstacle object: \<open>'wall'\<close>, \<open>'trap'\<close>, \<open>'enemy'\<close>, \<open>'player'\<close>.\<close>

datatype obstacle_type = Wall | Trap | EnemyUnit | PlayerUnit

record obstacle =
  obs_q :: int
  obs_r :: int
  obs_type :: obstacle_type

record enemy =
  pos :: hex
  hp :: int
  maxHP :: int
  damage :: int
  range_stat :: int
  ap :: int
  maxAP :: int
  maxAttacksPerTurn :: int
  attacksThisTurn :: int
  aiType :: ai_type
  preferredDistance :: int
  isAlive :: bool

text \<open>
  The effects of a turn that the scene sees: a completed \<open>moveTo(q, r)\<close> and a
  completed \<open>attackPlayer()\<close> with the damage dealt.
\<close>

datatype action = MoveTo int int | Attack int

text \<open>
  The part of the scene an enemy's turn reads and writes, seen from the enemy
  \<open>this\<close>.  \<open>self\<close> is the object \<open>this\<close>; \<open>enemies\<close> holds the other objects of
  \<open>scene.enemies\<close>, in their order (the source skips \<open>this\<close> by the test
  \<open>enemy !== this\<close> wherever it walks the list).  \<open>trace\<close> is not a field of the
  source: it records the completed moves and attacks in order, in place of the
  animations they start.  The \<open>await\<close>s are sequential: the turn runs to its end
  before anything else changes the scene.
\<close>

record world =
  self :: enemy
  enemies :: "enemy list"
  obstacles :: "obstacle list"
  playerPos :: hex
  playerHP :: int
  battleOver :: bool
  gridRadius :: int
  trace :: "action list"

definition die :: "enemy \<Rightarrow> enemy" where
  "die e = e\<lparr>isAlive := False\<rparr>"

definition takeDamage :: "enemy \<Rightarrow> int \<Rightarrow> enemy" where
  "takeDamage e amount =
     (let e' = e\<lparr>hp := max 0 (hp e - amount)\<rparr>
      in if hp e' \<le> 0 then die e' else e')"

definition resetTurn :: "enemy \<Rightarrow> enemy" where
  "resetTurn e = e\<lparr>ap := maxAP e, attacksThisTurn := 0\<rparr>"

definition canAttack :: "enemy \<Rightarrow> bool" where
  "canAttack e \<longleftrightarrow> attacksThisTurn e < maxAttacksPerTurn e \<and> ap e \<ge> 1"

definition endBattle :: "world \<Rightarrow> world" where
  "endBattle w = (if battleOver w then w else w\<lparr>battleOver := True\<rparr>)"

definition damagePlayer :: "world \<Rightarrow> int \<Rightarrow> world" where
  "damagePlayer w amount =
     (let w' = w\<lparr>playerHP := max 0 (playerHP w - amount)\<rparr>
      in if playerHP w' \<le> 0 then endBattle w' else w')"

definition moveTo :: "world \<Rightarrow> int \<Rightarrow> int \<Rightarrow> world" where
  "moveTo w q r =
     w\<lparr>self := (self w)\<lparr>pos := (q, r), ap := ap (self w) - 1\<rparr>,
       trace := trace w @ [MoveTo q r]\<rparr>"

definition attackPlayer :: "world \<Rightarrow> world" where
  "attackPlayer w =
     (if \<not> canAttack (self w) then w
      else
        let w1 = w\<lparr>self := (self w)\<lparr>attacksThisTurn := attacksThisTurn (self w) + 1,
                                     ap := ap (self w) - 1\<rparr>\<rparr>;
            w2 = damagePlayer w1 (damage (self w1))
        in w2\<lparr>trace := trace w2 @ [Attack (damage (self w1))]\<rparr>)"

definition getDistanceToPlayer :: "world \<Rightarrow> int" where
  "getDistanceToPlayer w =
     getDistance (fst (pos (self w))) (snd (pos (self w))) (fst (playerPos w)) (snd (playerPos w))"

definition hasLineOfSightToPlayer :: "world \<Rightarrow> bool" where
  "hasLineOfSightToPlayer w =
     (let walls = map (\<lambda>ob. (obs_q ob, obs_r ob)) (filter (\<lambda>ob. obs_type ob = Wall) (obstacles w))
      in hasLineOfSight (fst (pos (self w))) (snd (pos (self w)))
           (fst (playerPos w)) (snd (playerPos w)) walls)"

definition canReachPlayerWithAttack :: "world \<Rightarrow> bool" where
  "canReachPlayerWithAttack w =
     (let dist = getDistanceToPlayer w
      in if dist > range_stat (self w) then False
         else if aiType (self w) = Ranged then hasLineOfSightToPlayer w
         else True)"

definition getObstacles :: "world \<Rightarrow> obstacle list" where
  "getObstacles w =
     obstacles w
     @ map (\<lambda>e. \<lparr>obs_q = fst (pos e), obs_r = snd (pos e), obs_type = EnemyUnit\<rparr>)
           (filter isAlive (enemies w))
     @ [\<lparr>obs_q = fst (playerPos w), obs_r = snd (playerPos w), obs_type = PlayerUnit\<rparr>]"

text \<open>
  The obstacles the scene assembles for the player's own path (\<open>onPointerMove\<close>):
  walls, traps other than the destination, and the live enemies of the whole list.
\<close>

definition playerPathObstacles :: "obstacle list \<Rightarrow> enemy list \<Rightarrow> hex \<Rightarrow> obstacle list" where
  "playerPathObstacles obs es dest =
     filter (\<lambda>ob. if obs_type ob = Wall then True
                 else if obs_type ob = Trap then \<not> (obs_q ob = fst dest \<and> obs_r ob = snd dest)
                 else False) obs
     @ map (\<lambda>e. \<lparr>obs_q = fst (pos e), obs_r = snd (pos e), obs_type = EnemyUnit\<rparr>)
           (filter isAlive es)"

text \<open>A result \<open>None\<close> means that \<open>findPath\<close> does not return.\<close>

definition moveTowardPlayer :: "world \<Rightarrow> (bool \<times> world) option" where
  "moveTowardPlayer w =
     (let obstacles = getObstacles w;
          pathObstacles = filter (\<lambda>ob. obs_type ob \<noteq> PlayerUnit) obstacles
      in case findPath (gridRadius w) (fst (pos (self w))) (snd (pos (self w)))
                (fst (playerPos w)) (snd (playerPos w))
                (map (\<lambda>ob. (obs_q ob, obs_r ob)) pathObstacles) of
           None \<Rightarrow> None
         | Some NoPath \<Rightarrow> Some (False, w)
         | Some (Path path) \<Rightarrow>
             if length path > 1 then
               (case path of
                  [] \<Rightarrow> Some (False, w)
                | nextHex # _ \<Rightarrow>
                    let occupied = list_ex (\<lambda>e. isAlive e \<and> fst (pos e) = fst nextHex
                                                  \<and> snd (pos e) = snd nextHex) (enemies w)
                    in if \<not> occupied then Some (True, moveTo w (fst nextHex) (snd nextHex))
                       else Some (False, w))
             else Some (False, w))"

text \<open>The loop of \<open>moveAwayFromPlayer\<close> that keeps the best neighbor found so far.\<close>

fun bestLoop :: "hex \<Rightarrow> hex option \<times> int \<Rightarrow> hex list \<Rightarrow> hex option \<times> int" where
  "bestLoop player (bestNeighbor, bestDist) [] = (bestNeighbor, bestDist)"
| "bestLoop player (bestNeighbor, bestDist) (neighbor # rest) =
     (let dist = getDistance (fst neighbor) (snd neighbor) (fst player) (snd player)
      in if dist > bestDist then bestLoop player (Some neighbor, dist) rest
         else bestLoop player (bestNeighbor, bestDist) rest)"

definition validNeighbors :: "world \<Rightarrow> hex list" where
  "validNeighbors w =
     (let neighbors = getNeighbors (gridRadius w) (fst (pos (self w))) (snd (pos (self w)));
          obstacles = getObstacles w
      in filter (\<lambda>n. if \<not> isValidHex (gridRadius w) (fst n) (snd n) then False
                     else if list_ex (\<lambda>ob. obs_q ob = fst n \<and> obs_r ob = snd n) obstacles then False
                     else True) neighbors)"

definition moveAwayFromPlayer :: "world \<Rightarrow> bool \<times> world" where
  "moveAwayFromPlayer w =
     (if validNeighbors w = [] then (False, w)
      else case fst (bestLoop (playerPos w) (None, getDistanceToPlayer w) (validNeighbors w)) of
             Some bestNeighbor \<Rightarrow> (True, moveTo w (fst bestNeighbor) (snd bestNeighbor))
           | None \<Rightarrow> (False, w))"

function executeMeleeTurn :: "world \<Rightarrow> world option" where
  "executeMeleeTurn w =
     (if ap (self w) > 0 \<and> isAlive (self w) \<and> \<not> battleOver w then
        if getDistanceToPlayer w = 1 \<and> canAttack (self w) then executeMeleeTurn (attackPlayer w)
        else if ap (self w) \<ge> 1 then
          (case moveTowardPlayer w of
             None \<Rightarrow> None
           | Some (moved, w') \<Rightarrow> if \<not> moved then Some w' else executeMeleeTurn w')
        else Some w
      else Some w)"
  by pat_completeness auto
termination
proof (relation "measure (\<lambda>w. nat (ap (self w)))")
  show "wf (measure (\<lambda>w. nat (ap (self w))))" by simp
next
  fix w
  assume "0 < ap (self w) \<and> isAlive (self w) \<and> \<not> battleOver w"
    and "getDistanceToPlayer w = 1 \<and> canAttack (self w)"
  then show "(attackPlayer w, w) \<in> measure (\<lambda>w. nat (ap (self w)))"
    by (simp add: attackPlayer_def damagePlayer_def endBattle_def Let_def)
next
  fix w x2 x y
  assume "0 < ap (self w) \<and> isAlive (self w) \<and> \<not> battleOver w"
    and "moveTowardPlayer w = Some x2" and "(x, y) = x2" and "\<not> \<not> x"
  then have "moveTowardPlayer w = Some (True, y)" by auto
  then have "y = moveTo w (fst (pos (self y))) (snd (pos (self y)))"
    by (auto simp: moveTowardPlayer_def moveTo_def Let_def
             split: option.splits path_result.splits list.splits if_splits)
  then have "ap (self y) = ap (self w) - 1"
    by (metis (no_types, lifting) enemy.select_convs(6) enemy.surjective enemy.update_convs(1,6)
        moveTo_def world.select_convs(1) world.surjective world.update_convs(1,8))
  with \<open>0 < ap (self w) \<and> isAlive (self w) \<and> \<not> battleOver w\<close>
  show "(y, w) \<in> measure (\<lambda>w. nat (ap (self w)))" by simp
qed

declare executeMeleeTurn.simps [simp del]

text \<open>
  The three phases of \<open>executeRangedTurn\<close>.  \<open>dst\<close> (the variable \<open>dist\<close>) and \<open>hasLOS\<close> are its local
  variables, recomputed after each successful move.
\<close>

function approachLoop :: "world \<Rightarrow> int \<Rightarrow> bool \<Rightarrow> (world \<times> int \<times> bool) option" where
  "approachLoop w dst hasLOS =
     (if (dst > range_stat (self w) \<or> \<not> hasLOS) \<and> ap (self w) \<ge> 1
          \<and> isAlive (self w) \<and> \<not> battleOver w then
        (case moveTowardPlayer w of
           None \<Rightarrow> None
         | Some (moved, w') \<Rightarrow>
             if \<not> moved then Some (w', dst, hasLOS)
             else approachLoop w' (getDistanceToPlayer w') (hasLineOfSightToPlayer w'))
      else Some (w, dst, hasLOS))"
  by pat_completeness auto
termination
proof (relation "measure (\<lambda>(w, dst, hasLOS). nat (ap (self w)))")
  show "wf (measure (\<lambda>(w, dst, hasLOS). nat (ap (self w))))" by simp
next
  fix w :: world and dst :: int and hasLOS :: bool and x2 x y
  assume guard: "(range_stat (self w) < dst \<or> \<not> hasLOS) \<and> 1 \<le> ap (self w)
                 \<and> isAlive (self w) \<and> \<not> battleOver w"
    and "moveTowardPlayer w = Some x2" and "(x, y) = x2" and "\<not> \<not> x"
  then have "moveTowardPlayer w = Some (True, y)" by auto
  then have "y = moveTo w (fst (pos (self y))) (snd (pos (self y)))"
    by (auto simp: moveTowardPlayer_def moveTo_def Let_def
             split: option.splits path_result.splits list.splits if_splits)
  then have "ap (self y) = ap (self w) - 1"
    by (metis (no_types, lifting) enemy.select_convs(6) enemy.surjective enemy.update_convs(1,6)
        moveTo_def world.select_convs(1) world.surjective world.update_convs(1,8))
  with guard
  show "((y, getDistanceToPlayer y, hasLineOfSightToPlayer y), w, dst, hasLOS)
          \<in> measure (\<lambda>(w, dst, hasLOS). nat (ap (self w)))" by simp
qed

declare approachLoop.simps [simp del]

function retreatLoop :: "world \<Rightarrow> int \<Rightarrow> world" where
  "retreatLoop w dst =
     (if dst < preferredDistance (self w) \<and> ap (self w) \<ge> 1
          \<and> isAlive (self w) \<and> \<not> battleOver w then
        (case moveAwayFromPlayer w of
           (moved, w') \<Rightarrow> if \<not> moved then w' else retreatLoop w' (getDistanceToPlayer w'))
      else w)"
  by pat_completeness auto
termination
proof (relation "measure (\<lambda>(w, dst). nat (ap (self w)))")
  show "wf (measure (\<lambda>(w, dst). nat (ap (self w))))" by simp
next
  fix w :: world and dst :: int and x y
  assume guard: "dst < preferredDistance (self w) \<and> 1 \<le> ap (self w)
                 \<and> isAlive (self w) \<and> \<not> battleOver w"
    and "(x, y) = moveAwayFromPlayer w" and "\<not> \<not> x"
  then have "moveAwayFromPlayer w = (True, y)" by auto
  then have "y = moveTo w (fst (pos (self y))) (snd (pos (self y)))"
    by (auto simp: moveAwayFromPlayer_def moveTo_def Let_def
             split: option.splits if_splits)
  then have "ap (self y) = ap (self w) - 1"
    by (metis (no_types, lifting) enemy.select_convs(6) enemy.surjective enemy.update_convs(1,6)
        moveTo_def world.select_convs(1) world.surjective world.update_convs(1,8))
  with guard
  show "((y, getDistanceToPlayer y), w, dst) \<in> measure (\<lambda>(w, dst). nat (ap (self w)))"
    by simp
qed

declare retreatLoop.simps [simp del]

definition attackPhase :: "world \<Rightarrow> int \<Rightarrow> bool \<Rightarrow> world \<times> int" where
  "attackPhase w dst hasLOS =
     (if canAttack (self w) \<and> dst \<le> range_stat (self w) \<and> hasLOS
          \<and> isAlive (self w) \<and> \<not> battleOver w
      then (let w' = attackPlayer w in (w', getDistanceToPlayer w'))
      else (w, dst))"

definition executeRangedTurn :: "world \<Rightarrow> world option" where
  "executeRangedTurn w =
     (case approachLoop w (getDistanceToPlayer w) (hasLineOfSightToPlayer w) of
        None \<Rightarrow> None
      | Some (w1, dst, hasLOS) \<Rightarrow>
          (case attackPhase w1 dst hasLOS of
             (w2, dst2) \<Rightarrow> Some (retreatLoop w2 dst2)))"

definition executeTurn :: "world \<Rightarrow> world option" where
  "executeTurn w =
     (if \<not> isAlive (self w) then Some w
      else if aiType (self w) = Melee then executeMeleeTurn w
      else executeRangedTurn w)"

subsection \<open>Enemy types and the start of a battle\<close>

text \<open>The entries of \<open>ENEMY_TYPES\<close> (without names and colors).\<close>

record enemy_data =
  data_hp :: int
  data_damage :: int
  data_range :: int
  data_ap :: int
  data_maxAttacksPerTurn :: int
  data_aiType :: ai_type
  data_preferredDistance :: int

definition scrapper :: enemy_data where
  "scrapper = \<lparr>data_hp = 7, data_damage = 2, data_range = 1, data_ap = 3,
               data_maxAttacksPerTurn = 2, data_aiType = Melee, data_preferredDistance = 1\<rparr>"

definition brawler :: enemy_data where
  "brawler = \<lparr>data_hp = 6, data_damage = 2, data_range = 1, data_ap = 3,
              data_maxAttacksPerTurn = 2, data_aiType = Melee, data_preferredDistance = 1\<rparr>"

definition turret :: enemy_data where
  "turret = \<lparr>data_hp = 5, data_damage = 1, data_range = 3, data_ap = 3,
             data_maxAttacksPerTurn = 2, data_aiType = Ranged, data_preferredDistance = 3\<rparr>"

definition sniper :: enemy_data where
  "sniper = \<lparr>data_hp = 5, data_damage = 1, data_range = 3, data_ap = 3,
             data_maxAttacksPerTurn = 2, data_aiType = Ranged, data_preferredDistance = 3\<rparr>"

text \<open>The constructor of \<open>Enemy\<close>.\<close>

definition newEnemy :: "enemy_data \<Rightarrow> int \<Rightarrow> int \<Rightarrow> enemy" where
  "newEnemy d q r =
     \<lparr>pos = (q, r), hp = data_hp d, maxHP = data_hp d, damage = data_damage d,
      range_stat = data_range d, ap = data_ap d, maxAP = data_ap d,
      maxAttacksPerTurn = data_maxAttacksPerTurn d, attacksThisTurn = 0,
      aiType = data_aiType d, preferredDistance = data_preferredDistance d,
      isAlive = True\<rparr>"

text \<open>
  The scene as \<open>init\<close> and \<open>create\<close> of \<open>BattleScene\<close> set it up (player at the origin
  with 20 hit points, grid of radius 5), with the given enemy as \<open>this\<close>, the given other
  enemies and the given obstacles.
\<close>

definition battle :: "enemy \<Rightarrow> enemy list \<Rightarrow> obstacle list \<Rightarrow> world" where
  "battle e others obs =
     \<lparr>self = e, enemies = others, obstacles = obs, playerPos = (0, 0), playerHP = 20,
      battleOver = False, gridRadius = 5, trace = []\<rparr>"

section \<open>Notions used to state the properties\<close>



text \<open>The coordinates in the open set, and the coordinates the search has met so far.\<close>

definition nodes :: "search \<Rightarrow> hex set" where
  "nodes s = fst ` set (openSet s)"

definition discovered :: "search \<Rightarrow> hex set" where
  "discovered s = closedSet s \<union> nodes s"

definition distFrom :: "hex \<Rightarrow> hex \<Rightarrow> int" where
  "distFrom st x = getDistance (fst st) (snd st) (fst x) (snd x)"

definition nbrs :: "int \<Rightarrow> hex \<Rightarrow> hex set" where
  "nbrs R x = set (getNeighbors R (fst x) (snd x))"

definition validHex :: "int \<Rightarrow> hex \<Rightarrow> bool" where
  "validHex R x = isValidHex R (fst x) (snd x)"

text \<open>
  A sequence of coordinates in which each one is a neighbor (in the grid) of the one
  before it.
\<close>

fun stepwise :: "int \<Rightarrow> hex list \<Rightarrow> bool" where
  "stepwise R [] = True"
| "stepwise R [x] = True"
| "stepwise R (x # y # zs) = (y \<in> set (getNeighbors R (fst x) (snd x)) \<and> stepwise R (y # zs))"

text \<open>
  The invariants of the search without obstacles, for the proofs: what holds each
  time the loop tests its condition (\<open>bfsTop\<close>), and what holds while the neighbors
  of the current coordinate \<open>c\<close> are visited (\<open>bfsMid\<close>).
\<close>

definition bfsCommon :: "int \<Rightarrow> hex \<Rightarrow> hex \<Rightarrow> search \<Rightarrow> bool" where
  "bfsCommon R st goal s \<longleftrightarrow>
     distinct (map fst (openSet s))
     \<and> nodes s \<subseteq> Collect (validHex R) \<and> closedSet s \<subseteq> Collect (validHex R)
     \<and> nodes s \<inter> closedSet s = {}
     \<and> dom (gScore s) = discovered s
     \<and> (\<forall>x g. gScore s x = Some g \<longrightarrow> g = 0 \<or> g = \<infinity>)
     \<and> sorted (map snd (openSet s))
     \<and> sorted (map (distFrom st \<circ> fst) (openSet s))
     \<and> dom (cameFrom s) = discovered s - {st}
     \<and> (\<forall>x p. cameFrom s x = Some p \<longrightarrow>
            p \<in> closedSet s \<and> x \<in> nbrs R p \<and> distFrom st x = distFrom st p + 1)
     \<and> st \<in> discovered s \<and> goal \<notin> closedSet s"

definition bfsMid :: "int \<Rightarrow> hex \<Rightarrow> hex \<Rightarrow> hex \<Rightarrow> search \<Rightarrow> bool" where
  "bfsMid R st goal c s \<longleftrightarrow>
     bfsCommon R st goal s \<and> c \<in> closedSet s \<and> st \<in> closedSet s
     \<and> (\<forall>x\<in>nodes s. distFrom st c \<le> distFrom st x \<and> distFrom st x \<le> distFrom st c + 1)
     \<and> (\<forall>x\<in>closedSet s. distFrom st x \<le> distFrom st c)
     \<and> (\<forall>c'\<in>closedSet s - {c}. nbrs R c' \<subseteq> discovered s)"

definition bfsTop :: "int \<Rightarrow> hex \<Rightarrow> hex \<Rightarrow> search \<Rightarrow> bool" where
  "bfsTop R st goal s \<longleftrightarrow>
     bfsCommon R st goal s
     \<and> (\<forall>x\<in>nodes s. \<forall>y\<in>nodes s. distFrom st x \<le> distFrom st y + 1)
     \<and> (\<forall>c\<in>closedSet s. \<forall>x\<in>nodes s. distFrom st c \<le> distFrom st x)
     \<and> (\<forall>c\<in>closedSet s. nbrs R c \<subseteq> discovered s)"

section \<open>Geometry of the grid\<close>

lemma getDistance_dividend_even:
  "even (\<bar>q1 - q2\<bar> + \<bar>q1 + r1 - q2 - r2\<bar> + \<bar>r1 - r2\<bar> :: int)"
  by (auto simp: abs_if)

lemma getDistance_max:
  "getDistance q1 r1 q2 r2 = max \<bar>q1 - q2\<bar> (max \<bar>r1 - r2\<bar> \<bar>q1 + r1 - q2 - r2\<bar>)"
  unfolding getDistance_def by (simp add: max_def abs_if) presburger

lemma isValidHex_iff:
  "isValidHex radius q r \<longleftrightarrow> \<bar>q\<bar> \<le> radius \<and> \<bar>r\<bar> \<le> radius \<and> \<bar>q + r\<bar> \<le> radius"
  unfolding isValidHex_def generateHexGrid_def list_ex_iff
  by (auto simp: abs_if max_def min_def split: if_splits)

lemma set_getNeighbors:
  "set (getNeighbors radius q r) =
     {h. h \<in> {(q + 1, r), (q + 1, r - 1), (q, r - 1), (q - 1, r), (q - 1, r + 1), (q, r + 1)}
         \<and> isValidHex radius (fst h) (snd h)}"
  unfolding getNeighbors_def directions_def set_filter
  by (simp add: Collect_conj_eq insert_commute)

lemma getDistance_one_iff:
  "getDistance q1 r1 q2 r2 = 1 \<longleftrightarrow>
     (q2, r2) \<in> {(q1 + 1, r1), (q1 + 1, r1 - 1), (q1, r1 - 1),
                  (q1 - 1, r1), (q1 - 1, r1 + 1), (q1, r1 + 1)}"
  unfolding getDistance_max by (auto simp: max_def abs_if split: if_splits)

lemma neighbor_cases:
  "n \<in> set (getNeighbors R q r) \<longleftrightarrow>
     isValidHex R (fst n) (snd n) \<and>
     (n = (q + 1, r) \<or> n = (q + 1, r - 1) \<or> n = (q, r - 1)
      \<or> n = (q - 1, r) \<or> n = (q - 1, r + 1) \<or> n = (q, r + 1))"
  unfolding set_getNeighbors by auto

lemma getDistance_zero_iff: "getDistance q1 r1 q2 r2 = 0 \<longleftrightarrow> q1 = q2 \<and> r1 = r2"
  unfolding getDistance_max by (auto simp: max_def abs_if split: if_splits)

lemma getDistance_nonneg: "0 \<le> getDistance q1 r1 q2 r2"
  unfolding getDistance_max by (simp add: max_def)

lemma isValidHex_bounds:
  "isValidHex R q r \<longleftrightarrow> - R \<le> q \<and> q \<le> R \<and> - R \<le> r \<and> r \<le> R \<and> - R \<le> q + r \<and> q + r \<le> R"
  by (auto simp: isValidHex_iff)

lemma closer_neighbor:
  assumes vx: "isValidHex R q r" and vs: "isValidHex R sq sr" and ne: "q \<noteq> sq \<or> r \<noteq> sr"
  shows "\<exists>n\<in>set (getNeighbors R q r).
           getDistance sq sr (fst n) (snd n) = getDistance sq sr q r - 1"
proof -
  note v = vx [unfolded isValidHex_bounds] vs [unfolded isValidHex_bounds]
  consider (pp) "q > sq" "r \<ge> sr" | (pn) "q > sq" "r < sr"
    | (nn) "q < sq" "r \<le> sr" | (np) "q < sq" "r > sr"
    | (zp) "q = sq" "r > sr" | (zn) "q = sq" "r < sr"
    using ne by linarith
  then show ?thesis
  proof cases
    case pp
    have "(q - 1, r) \<in> set (getNeighbors R q r)"
      using v pp by (simp add: neighbor_cases isValidHex_bounds)
    moreover have "getDistance sq sr (q - 1) r = getDistance sq sr q r - 1"
      using pp by (simp add: getDistance_max max_def abs_if)
    ultimately show ?thesis by force
  next
    case pn
    have "(q - 1, r + 1) \<in> set (getNeighbors R q r)"
      using v pn by (simp add: neighbor_cases isValidHex_bounds)
    moreover have "getDistance sq sr (q - 1) (r + 1) = getDistance sq sr q r - 1"
      using pn by (simp add: getDistance_max max_def abs_if)
    ultimately show ?thesis by force
  next
    case nn
    have "(q + 1, r) \<in> set (getNeighbors R q r)"
      using v nn by (simp add: neighbor_cases isValidHex_bounds)
    moreover have "getDistance sq sr (q + 1) r = getDistance sq sr q r - 1"
      using nn by (simp add: getDistance_max max_def abs_if)
    ultimately show ?thesis by force
  next
    case np
    have "(q + 1, r - 1) \<in> set (getNeighbors R q r)"
      using v np by (simp add: neighbor_cases isValidHex_bounds)
    moreover have "getDistance sq sr (q + 1) (r - 1) = getDistance sq sr q r - 1"
      using np by (simp add: getDistance_max max_def abs_if)
    ultimately show ?thesis by force
  next
    case zp
    have "(q, r - 1) \<in> set (getNeighbors R q r)"
      using v zp by (simp add: neighbor_cases isValidHex_bounds)
    moreover have "getDistance sq sr q (r - 1) = getDistance sq sr q r - 1"
      using zp by (simp add: getDistance_max max_def abs_if)
    ultimately show ?thesis by force
  next
    case zn
    have "(q, r + 1) \<in> set (getNeighbors R q r)"
      using v zn by (simp add: neighbor_cases isValidHex_bounds)
    moreover have "getDistance sq sr q (r + 1) = getDistance sq sr q r - 1"
      using zn by (simp add: getDistance_max max_def abs_if)
    ultimately show ?thesis by force
  qed
qed

lemma max3_step:
  fixes a b c a' b' c' :: int
  assumes "\<bar>a - a'\<bar> \<le> 1" and "\<bar>b - b'\<bar> \<le> 1" and "\<bar>c - c'\<bar> \<le> 1"
  shows "\<bar>max a (max b c) - max a' (max b' c')\<bar> \<le> 1"
  using assms by linarith

lemma abs_step:
  fixes x y :: int
  assumes "\<bar>x - y\<bar> \<le> 1"
  shows "\<bar>\<bar>x\<bar> - \<bar>y\<bar>\<bar> \<le> 1"
  using assms by linarith

lemma neighbor_distance_step:
  assumes "n \<in> set (getNeighbors R q r)"
  shows "\<bar>getDistance sq sr (fst n) (snd n) - getDistance sq sr q r\<bar> \<le> 1"
proof -
  from assms have "\<bar>(sq - fst n) - (sq - q)\<bar> \<le> 1" "\<bar>(sr - snd n) - (sr - r)\<bar> \<le> 1"
    "\<bar>(sq + sr - fst n - snd n) - (sq + sr - q - r)\<bar> \<le> 1"
    unfolding neighbor_cases by auto
  then show ?thesis
    unfolding getDistance_max by (intro max3_step abs_step)
qed

lemma neighbor_sym:
  assumes "n \<in> set (getNeighbors R q r)" and "isValidHex R q r"
  shows "(q, r) \<in> set (getNeighbors R (fst n) (snd n))"
  using assms unfolding neighbor_cases by auto

lemma neighbor_valid: "n \<in> set (getNeighbors R q r) \<Longrightarrow> isValidHex R (fst n) (snd n)"
  by (simp add: neighbor_cases)

section \<open>Distance laws\<close>

text \<open>
  C5 (as stated): \<open>distance(a, a) = 0\<close>, distance is symmetric, and
  \<open>distance(a, b) = 1\<close> if and only if \<open>b\<close> is an element of \<open>neighbors(a)\<close>.
  The last part fails for a coordinate \<open>b\<close> outside the grid, because
  \<open>getNeighbors\<close> keeps only valid coordinates: on the radius-5 grid, \<open>(6,0)\<close> is at
  distance 1 from \<open>(5,0)\<close> and is not one of its neighbors.
\<close>

theorem C5_neighbors_counterexample:
  "getDistance 5 0 6 0 = 1 \<and> (6, 0) \<notin> set (getNeighbors 5 5 0)"
  by (simp add: getDistance_def set_getNeighbors isValidHex_iff)

text \<open>
  C5 (amended): \<open>distance(a, a) = 0\<close>; distance is symmetric; and \<open>b\<close> is an element
  of \<open>neighbors(a)\<close> if and only if \<open>distance(a, b) = 1\<close> and \<open>b\<close> is a valid
  coordinate of the grid.
\<close>

theorem C5_distance_laws:
  "getDistance q1 r1 q1 r1 = 0
   \<and> getDistance q1 r1 q2 r2 = getDistance q2 r2 q1 r1
   \<and> ((q2, r2) \<in> set (getNeighbors radius q1 r1)
        \<longleftrightarrow> getDistance q1 r1 q2 r2 = 1 \<and> isValidHex radius q2 r2)"
proof -
  have refl: "getDistance q1 r1 q1 r1 = 0"
    by (simp add: getDistance_def)
  have sym: "getDistance q1 r1 q2 r2 = getDistance q2 r2 q1 r1"
    unfolding getDistance_max by (simp add: max_def abs_if)
  have nb: "(q2, r2) \<in> set (getNeighbors radius q1 r1)
        \<longleftrightarrow> getDistance q1 r1 q2 r2 = 1 \<and> isValidHex radius q2 r2"
    unfolding set_getNeighbors getDistance_one_iff by auto
  from refl sym nb show ?thesis by blast
qed

section \<open>Attacks\<close>

lemma attackPlayer_self_fields:
  "pos (self (attackPlayer w)) = pos (self w)"
  "playerPos (attackPlayer w) = playerPos w"
  "isAlive (self (attackPlayer w)) = isAlive (self w)"
  "preferredDistance (self (attackPlayer w)) = preferredDistance (self w)"
  by (simp_all add: attackPlayer_def damagePlayer_def endBattle_def Let_def)

lemma attackPlayer_can:
  assumes "canAttack (self w)"
  shows "ap (self (attackPlayer w)) = ap (self w) - 1"
    and "attacksThisTurn (self (attackPlayer w)) = attacksThisTurn (self w) + 1"
    and "trace (attackPlayer w) = trace w @ [Attack (damage (self w))]"
    and "playerHP (attackPlayer w) = max 0 (playerHP w - damage (self w))"
    and "battleOver (attackPlayer w) \<longleftrightarrow> battleOver w \<or> playerHP w - damage (self w) \<le> 0"
  using assms by (simp_all add: attackPlayer_def damagePlayer_def endBattle_def Let_def)

lemma getDistanceToPlayer_attackPlayer:
  "getDistanceToPlayer (attackPlayer w) = getDistanceToPlayer w"
  by (simp add: getDistanceToPlayer_def attackPlayer_self_fields)

text \<open>
  C10: a call of \<open>attackPlayer\<close> made when the attack precondition does not hold
  (\<open>attacksThisTurn \<ge> maxAttacksPerTurn\<close> or \<open>ap < 1\<close>) completes and changes nothing:
  the whole state, and so the action points, the attack counter and the player's hit
  points, is as before.
\<close>

theorem C10_attack_noop:
  assumes "attacksThisTurn (self w) \<ge> maxAttacksPerTurn (self w) \<or> ap (self w) < 1"
  shows "attackPlayer w = w"
  using assms by (auto simp: attackPlayer_def canAttack_def)

theorem C10_attack_noop_witness:
  "ap (self (battle ((newEnemy scrapper 1 0)\<lparr>ap := 0\<rparr>) [] [])) < 1
   \<and> attackPlayer (battle ((newEnemy scrapper 1 0)\<lparr>ap := 0\<rparr>) [] [])
       = battle ((newEnemy scrapper 1 0)\<lparr>ap := 0\<rparr>) [] []"
  using C10_attack_noop [of "battle ((newEnemy scrapper 1 0)\<lparr>ap := 0\<rparr>) [] []"]
  by (simp add: battle_def newEnemy_def scrapper_def)

section \<open>The ranged turn at the preferred distance\<close>

text \<open>
  C6: a ranged enemy that is alive in a running battle, at distance 3 from the player,
  with range 3, preferred distance 3, 3 action points, no attack used, at least one
  attack allowed and line of sight: its turn is exactly one call of \<open>attackPlayer\<close>.
  No move is made in the approach phase or in the retreat phase (the trace gains the
  single attack and the position is unchanged), one attack is counted, and 2 action
  points are left.
\<close>

theorem C6_ranged_turn:
  assumes "aiType (self w) = Ranged" and "isAlive (self w)" and "\<not> battleOver w"
    and "getDistanceToPlayer w = 3" and "range_stat (self w) = 3"
    and "preferredDistance (self w) = 3"
    and "ap (self w) = 3" and "attacksThisTurn (self w) = 0"
    and "maxAttacksPerTurn (self w) \<ge> 1" and "hasLineOfSightToPlayer w"
  shows "executeTurn w = Some (attackPlayer w)
         \<and> trace (attackPlayer w) = trace w @ [Attack (damage (self w))]
         \<and> attacksThisTurn (self (attackPlayer w)) = 1
         \<and> pos (self (attackPlayer w)) = pos (self w)
         \<and> ap (self (attackPlayer w)) = 2"
proof -
  have can: "canAttack (self w)"
    using assms by (simp add: canAttack_def)
  have approach: "approachLoop w (getDistanceToPlayer w) (hasLineOfSightToPlayer w) = Some (w, 3, True)"
    using assms by (subst approachLoop.simps) simp
  have attack: "attackPhase w 3 True = (attackPlayer w, 3)"
    using assms can by (simp add: attackPhase_def getDistanceToPlayer_attackPlayer)
  have retreat: "retreatLoop (attackPlayer w) 3 = attackPlayer w"
    using assms by (subst retreatLoop.simps) (simp add: attackPlayer_self_fields)
  have "executeTurn w = Some (attackPlayer w)"
    using assms approach attack retreat by (simp add: executeTurn_def executeRangedTurn_def)
  then show ?thesis
    using assms attackPlayer_can [OF can] by (simp add: attackPlayer_self_fields)
qed

theorem C6_ranged_turn_witness:
  "executeTurn (battle (newEnemy turret 3 0) [] []) = Some (attackPlayer (battle (newEnemy turret 3 0) [] []))
   \<and> trace (attackPlayer (battle (newEnemy turret 3 0) [] [])) = [Attack 1]
   \<and> attacksThisTurn (self (attackPlayer (battle (newEnemy turret 3 0) [] []))) = 1
   \<and> pos (self (attackPlayer (battle (newEnemy turret 3 0) [] []))) = (3, 0)
   \<and> ap (self (attackPlayer (battle (newEnemy turret 3 0) [] []))) = 2"
proof -
  let ?w = "battle (newEnemy turret 3 0) [] []"
  have los: "hasLineOfSightToPlayer ?w" by code_simp
  have d: "getDistanceToPlayer ?w = 3" by code_simp
  show ?thesis
    using C6_ranged_turn [of ?w] los d
    by (simp add: battle_def newEnemy_def turret_def)
qed

section \<open>Damage and death\<close>

lemma takeDamage_zero_dead: "hp (takeDamage e a) = 0 \<Longrightarrow> \<not> isAlive (takeDamage e a)"
  by (auto simp: takeDamage_def die_def Let_def split: if_splits)

lemma takeDamage_stays_dead: "\<not> isAlive e \<Longrightarrow> \<not> isAlive (takeDamage e a)"
  by (simp add: takeDamage_def die_def Let_def)

lemma foldl_takeDamage_stays_dead: "\<not> isAlive e \<Longrightarrow> \<not> isAlive (foldl takeDamage e as)"
  by (induction as arbitrary: e) (simp_all add: takeDamage_stays_dead)

lemma getObstacles_skip_dead:
  "\<not> isAlive d \<Longrightarrow> getObstacles (w\<lparr>enemies := xs @ d # ys\<rparr>) = getObstacles (w\<lparr>enemies := xs @ ys\<rparr>)"
  by (simp add: getObstacles_def)

lemma playerPathObstacles_skip_dead:
  "\<not> isAlive d \<Longrightarrow> playerPathObstacles obs (xs @ d # ys) dest = playerPathObstacles obs (xs @ ys) dest"
  by (simp add: playerPathObstacles_def)

text \<open>
  C9: take any enemy and any sequence of calls of \<open>takeDamage\<close>.  If after some
  non-empty part \<open>pre\<close> of the sequence the hit points are 0, then the enemy is not
  alive at that moment nor after any further calls \<open>post\<close>; and an obstacle list
  assembled while it is in the scene's enemy list (by \<open>getObstacles\<close> for another
  enemy's movement, by the scene for the player's path) is the list assembled
  without it.
\<close>

theorem C9_dead_excluded:
  assumes "pre \<noteq> []" and "hp (foldl takeDamage e pre) = 0"
  shows "\<not> isAlive (foldl takeDamage e (pre @ post))
         \<and> getObstacles (w\<lparr>enemies := xs @ foldl takeDamage e (pre @ post) # ys\<rparr>)
             = getObstacles (w\<lparr>enemies := xs @ ys\<rparr>)
         \<and> playerPathObstacles obs (xs @ foldl takeDamage e (pre @ post) # ys) dest
             = playerPathObstacles obs (xs @ ys) dest"
proof -
  from assms(1) obtain pre' a where pre: "pre = pre' @ [a]"
    by (cases pre rule: rev_cases) auto
  with assms(2) have "\<not> isAlive (foldl takeDamage e pre)"
    by (simp add: takeDamage_zero_dead)
  then have dead: "\<not> isAlive (foldl takeDamage e (pre @ post))"
    by (simp add: foldl_takeDamage_stays_dead)
  then show ?thesis
    by (simp only: getObstacles_skip_dead playerPathObstacles_skip_dead simp_thms)
qed

theorem C9_dead_excluded_witness:
  "[3, 4] \<noteq> ([] :: int list) \<and> hp (foldl takeDamage (newEnemy scrapper 2 0) [3, 4]) = 0
   \<and> \<not> isAlive (foldl takeDamage (newEnemy scrapper 2 0) ([3, 4] @ [1]))
   \<and> getObstacles ((battle (newEnemy turret 3 0) [] [])
         \<lparr>enemies := [] @ foldl takeDamage (newEnemy scrapper 2 0) ([3, 4] @ [1]) # []\<rparr>)
       = getObstacles ((battle (newEnemy turret 3 0) [] [])\<lparr>enemies := [] @ []\<rparr>)
   \<and> playerPathObstacles [] ([] @ foldl takeDamage (newEnemy scrapper 2 0) ([3, 4] @ [1]) # []) (1, 0)
       = playerPathObstacles [] ([] @ []) (1, 0)"
proof -
  have h: "hp (foldl takeDamage (newEnemy scrapper 2 0) [3, 4]) = 0"
    by (simp add: takeDamage_def newEnemy_def scrapper_def die_def Let_def)
  show ?thesis
    using h C9_dead_excluded [where pre = "[3, 4]" and e = "newEnemy scrapper 2 0" and post = "[1]"
        and w = "battle (newEnemy turret 3 0) [] []" and xs = "[]" and ys = "[]"
        and obs = "[]" and dest = "(1, 0)"]
    by simp
qed

section \<open>The retreat step\<close>







section \<open>Rounding\<close>






section \<open>Line of sight\<close>















section \<open>The search loop\<close>

lemma closedSet_visitNeighbor [simp]:
  "closedSet (visitNeighbor c eq er obs s n) = closedSet s"
  by (simp add: visitNeighbor_def Let_def)

lemma closedSet_visitNeighbors [simp]:
  "closedSet (visitNeighbors c eq er obs s ns) = closedSet s"
  by (induction ns arbitrary: s) simp_all

lemma nodes_visitNeighbor:
  "fst ` set (openSet (visitNeighbor c eq er obs s n))
     \<subseteq> fst ` set (openSet s) \<union> ({n} - closedSet s)"
  by (simp add: visitNeighbor_def Let_def)

lemma nodes_visitNeighbors:
  "fst ` set (openSet (visitNeighbors c eq er obs s ns))
     \<subseteq> fst ` set (openSet s) \<union> (set ns - closedSet s)"
proof (induction ns arbitrary: s)
  case Nil
  then show ?case by simp
next
  case (Cons n ns)
  from Cons.IH [of "visitNeighbor c eq er obs s n"] nodes_visitNeighbor [of c eq er obs s n]
  show ?case by auto
qed

lemma distinct_visitNeighbor:
  "distinct (map fst (openSet s)) \<Longrightarrow>
   distinct (map fst (openSet (visitNeighbor c eq er obs s n)))"
  by (auto simp: visitNeighbor_def Let_def list_ex_iff)

lemma distinct_visitNeighbors:
  "distinct (map fst (openSet s)) \<Longrightarrow>
   distinct (map fst (openSet (visitNeighbors c eq er obs s ns)))"
  by (induction ns arbitrary: s) (simp_all add: distinct_visitNeighbor)


lemma sorted_open_head:
  assumes "sort_key snd (openSet s) = c # rem"
  shows "set (openSet s) = insert c (set rem)"
    and "distinct (map fst (openSet s)) \<Longrightarrow> distinct (map fst (c # rem))"
proof -
  have "set (sort_key snd (openSet s)) = set (openSet s)" by simp
  with assms show "set (openSet s) = insert c (set rem)" by simp
  assume d: "distinct (map fst (openSet s))"
  then have "distinct (openSet s)" "inj_on fst (set (openSet s))"
    by (simp_all add: distinct_map)
  then have "distinct (sort_key snd (openSet s))" "inj_on fst (set (sort_key snd (openSet s)))"
    by simp_all
  then have "distinct (map fst (sort_key snd (openSet s)))"
    by (simp add: distinct_map)
  with assms show "distinct (map fst (c # rem))" by simp
qed

lemma searchLoop_Nil:
  assumes "openSet s = []"
  shows "searchLoop R gq gr obs s = Some NoPath"
  using assms by (subst searchLoop.simps) simp

lemma searchLoop_found:
  assumes "sort_key snd (openSet s) = c # rem" "fst c = (gq, gr)"
        "reconstructPath (cameFrom s) (gq, gr) [] = Some path"
  shows "searchLoop R gq gr obs s = Some (Path (tl path))"
  using assms by (subst searchLoop.simps) simp

lemma searchLoop_step:
  assumes "sort_key snd (openSet s) = c # rem" "fst c \<noteq> (gq, gr)"
  shows "searchLoop R gq gr obs s =
         searchLoop R gq gr obs (visitNeighbors (fst c) gq gr obs
                     (s\<lparr>openSet := rem, closedSet := insert (fst c) (closedSet s)\<rparr>)
                     (getNeighbors R (fst (fst c)) (snd (fst c))))"
  using assms by (subst searchLoop.simps) simp

lemma searchLoop_rule:
  assumes fin: "finite U"
    and inv: "I s"
    and cur: "\<And>s c rem. I s \<Longrightarrow> sort_key snd (openSet s) = c # rem \<Longrightarrow>
                fst c \<in> U \<and> fst c \<notin> closedSet s"
    and step: "\<And>s c rem. I s \<Longrightarrow> sort_key snd (openSet s) = c # rem \<Longrightarrow> fst c \<noteq> (gq, gr) \<Longrightarrow>
                I (visitNeighbors (fst c) gq gr obs
                     (s\<lparr>openSet := rem, closedSet := insert (fst c) (closedSet s)\<rparr>)
                     (getNeighbors R (fst (fst c)) (snd (fst c))))"
    and found: "\<And>s c rem. I s \<Longrightarrow> sort_key snd (openSet s) = c # rem \<Longrightarrow> fst c = (gq, gr) \<Longrightarrow>
                \<exists>path. reconstructPath (cameFrom s) (gq, gr) [] = Some path \<and> Q (Path (tl path))"
    and empty: "\<And>s. I s \<Longrightarrow> openSet s = [] \<Longrightarrow> Q NoPath"
  shows "\<exists>res. searchLoop R gq gr obs s = Some res \<and> Q res"
  using inv
proof (induction "card (U - closedSet s)" arbitrary: s rule: less_induct)
  case less
  show ?case
  proof (cases "sort_key snd (openSet s)")
    case Nil
    have "length (openSet s) = length (sort_key snd (openSet s))" by simp
    with Nil have e: "openSet s = []" by simp
    from empty [OF less.prems e] searchLoop_Nil [OF e] show ?thesis by simp
  next
    case (Cons c rem)
    show ?thesis
    proof (cases "fst c = (gq, gr)")
      case True
      from found [OF less.prems Cons True] obtain path where
        p: "reconstructPath (cameFrom s) (gq, gr) [] = Some path" and q: "Q (Path (tl path))"
        by blast
      from searchLoop_found [OF Cons True p] q show ?thesis by simp
    next
      case False
      let ?s' = "visitNeighbors (fst c) gq gr obs
                     (s\<lparr>openSet := rem, closedSet := insert (fst c) (closedSet s)\<rparr>)
                     (getNeighbors R (fst (fst c)) (snd (fst c)))"
      from cur [OF less.prems Cons] have in_U: "fst c \<in> U - closedSet s" by simp
      have eq: "U - closedSet ?s' = (U - closedSet s) - {fst c}" by auto
      have "finite (U - closedSet s)" using fin by simp
      from card_Diff1_less [OF this in_U]
      have "card (U - closedSet ?s') < card (U - closedSet s)"
        unfolding eq .
      from less.hyps [OF this step [OF less.prems Cons False]]
      show ?thesis by (simp only: searchLoop_step [OF Cons False])
    qed
  qed
qed

lemma finite_valid: "finite {h. isValidHex R (fst h) (snd h)}"
proof -
  have "{h. isValidHex R (fst h) (snd h)} \<subseteq> {- R .. R} \<times> {- R .. R}"
    by (auto simp: isValidHex_bounds)
  then show ?thesis by (rule finite_subset) simp
qed

text \<open>Termination and failure when the goal can never enter the open set.\<close>

lemma searchLoop_unreachable_goal:
  assumes goal: "\<not> isValidHex R gq gr"
    and d: "distinct (map fst (openSet s))"
    and sub: "fst ` set (openSet s) \<subseteq> (insert st {h. isValidHex R (fst h) (snd h)}) - closedSet s"
    and ne: "st \<noteq> (gq, gr)"
  shows "searchLoop R gq gr obs s = Some NoPath"
proof -
  let ?U = "insert st {h. isValidHex R (fst h) (snd h)}"
  let ?I = "\<lambda>s. distinct (map fst (openSet s)) \<and> fst ` set (openSet s) \<subseteq> ?U - closedSet s"
  have "\<exists>res. searchLoop R gq gr obs s = Some res \<and> res = NoPath"
  proof (rule searchLoop_rule [where U = ?U and I = ?I])
    show "finite ?U" using finite_valid by simp
    show "?I s" using d sub by simp
  next
    fix s :: search and c rem assume I: "?I s" and so: "sort_key snd (openSet s) = c # rem"
    from sorted_open_head(1) [OF so] I show "fst c \<in> ?U \<and> fst c \<notin> closedSet s" by auto
  next
    fix s :: search and c rem assume I: "?I s" and so: "sort_key snd (openSet s) = c # rem"
      and "fst c \<noteq> (gq, gr)"
    let ?s1 = "s\<lparr>openSet := rem, closedSet := insert (fst c) (closedSet s)\<rparr>"
    let ?ns = "getNeighbors R (fst (fst c)) (snd (fst c))"
    let ?s2 = "visitNeighbors (fst c) gq gr obs ?s1 ?ns"
    from sorted_open_head [OF so] I have dc: "distinct (map fst (c # rem))"
      and sets: "set (openSet s) = insert c (set rem)" by simp_all
    have d1: "distinct (map fst (openSet ?s1))" using dc by simp
    define A where "A = fst ` set (openSet ?s2)"
    define B where "B = fst ` set rem"
    define N where "N = set ?ns"
    define C where "C = closedSet s"
    have "A \<subseteq> B \<union> (N - insert (fst c) C)"
      using nodes_visitNeighbors [of "fst c" gq gr obs ?s1 ?ns]
      by (simp add: A_def B_def N_def C_def)
    moreover have "B \<subseteq> ?U - C"
      using I sets by (auto simp: B_def C_def)
    moreover have "fst c \<notin> B" using dc by (simp add: B_def)
    moreover have "N \<subseteq> ?U"
      using neighbor_valid by (auto simp: N_def)
    ultimately have "A \<subseteq> ?U - insert (fst c) C" by blast
    then have "fst ` set (openSet ?s2) \<subseteq> ?U - closedSet ?s2"
      by (simp add: A_def C_def)
    with distinct_visitNeighbors [OF d1] show "?I ?s2" by simp
  next
    fix s :: search and c rem assume I: "?I s" and so: "sort_key snd (openSet s) = c # rem"
      and g: "fst c = (gq, gr)"
    from sorted_open_head(1) [OF so] I have "fst c \<in> ?U" by auto
    with g goal ne have False by auto
    then show "\<exists>path. reconstructPath (cameFrom s) (gq, gr) [] = Some path \<and> Path (tl path) = NoPath" ..
  qed simp
  then show ?thesis by simp
qed

lemma findPath_isolated_start:
  assumes "getNeighbors R sq sr = []" and "sq \<noteq> gq \<or> sr \<noteq> gr"
  shows "findPath R sq sr gq gr obs = Some NoPath"
proof -
  let ?h = "enat (nat (getDistance sq sr gq gr))"
  let ?s0 = "\<lparr>openSet = [((sq, sr), ?h)], closedSet = {}, cameFrom = Map.empty,
             gScore = [(sq, sr) \<mapsto> 0], fScore = [(sq, sr) \<mapsto> ?h]\<rparr>"
  have so: "sort_key snd (openSet ?s0) = ((sq, sr), ?h) # []" by simp
  have ng: "fst ((sq, sr), ?h) \<noteq> (gq, gr)" using assms(2) by auto
  have "searchLoop R gq gr obs ?s0 = Some NoPath"
    unfolding searchLoop_step [OF so ng] using assms(1)
    by (simp add: searchLoop_Nil)
  then show ?thesis by (simp add: findPath_def Let_def)
qed

text \<open>
  C3 (as stated): \<open>findPath\<close> returns none whenever the start or the goal lies
  outside the grid.  It fails for a start outside the grid next to a valid coordinate:
  \<open>findPath\<close> does not test its arguments for validity, and from \<open>(6,0)\<close>, outside the
  radius-5 grid, it returns the path \<open>[(5,0)]\<close> to the valid goal \<open>(5,0)\<close>.
\<close>

theorem C3_start_outside_counterexample:
  "\<not> isValidHex 5 6 0 \<and> findPath 5 6 0 5 0 [] = Some (Path [(5, 0)])"
  by code_simp

text \<open>
  C3 (amended): for every call of \<open>findPath\<close>, with any obstacles, in which the
  start and the goal differ and either the goal lies outside the grid or the start
  has no valid neighbor, \<open>findPath\<close> returns none.
\<close>

theorem C3_outside_grid:
  assumes "startQ \<noteq> endQ \<or> startR \<noteq> endR"
    and "\<not> isValidHex radius endQ endR \<or> getNeighbors radius startQ startR = []"
  shows "findPath radius startQ startR endQ endR obs = Some NoPath"
proof (cases "isValidHex radius endQ endR")
  case False
  show ?thesis
    unfolding findPath_def Let_def
    using False assms(1)
    by (intro searchLoop_unreachable_goal [where st = "(startQ, startR)"]) auto
next
  case True
  with assms(2) have "getNeighbors radius startQ startR = []" by simp
  then show ?thesis using assms(1) by (rule findPath_isolated_start)
qed

theorem C3_outside_grid_witness:
  "\<not> isValidHex 5 6 0 \<and> findPath 5 0 0 6 0 [(1, 0)] = Some NoPath
   \<and> getNeighbors 5 8 0 = [] \<and> findPath 5 8 0 5 0 [] = Some NoPath"
proof -
  have a: "\<not> isValidHex 5 6 0" by (simp add: isValidHex_iff)
  have b: "getNeighbors 5 8 0 = []" by code_simp
  from C3_outside_grid [of 0 6 0 0 5 "[(1, 0)]"] C3_outside_grid [of 8 5 0 0 5 "[]"] a b
  show ?thesis by simp
qed

section \<open>Breadth-first search without obstacles\<close>

lemma distFrom_nonneg: "0 \<le> distFrom st x"
  by (simp add: distFrom_def getDistance_nonneg)

lemma distFrom_zero_iff: "distFrom st x = 0 \<longleftrightarrow> x = st"
  by (auto simp: distFrom_def getDistance_zero_iff prod_eq_iff)

lemma nbrs_valid: "y \<in> nbrs R x \<Longrightarrow> validHex R y"
  by (simp add: nbrs_def validHex_def neighbor_valid)

lemma nbrs_sym: "y \<in> nbrs R x \<Longrightarrow> validHex R x \<Longrightarrow> x \<in> nbrs R y"
  using neighbor_sym [of y R "fst x" "snd x"] by (simp add: nbrs_def validHex_def)

lemma nbrs_step: "y \<in> nbrs R x \<Longrightarrow> \<bar>distFrom st y - distFrom st x\<bar> \<le> 1"
  using neighbor_distance_step [of y R "fst x" "snd x" "fst st" "snd st"]
  by (simp add: nbrs_def distFrom_def)

lemma nbrs_closer:
  assumes "validHex R x" and "validHex R st" and "x \<noteq> st"
  shows "\<exists>y\<in>nbrs R x. distFrom st y = distFrom st x - 1"
  using closer_neighbor [of R "fst x" "snd x" "fst st" "snd st"] assms
  by (simp add: nbrs_def distFrom_def validHex_def prod_eq_iff)

text \<open>
  Every valid coordinate that is no farther from the start than the whole frontier
  has been discovered, as soon as the neighbors of the closed coordinates (but for
  the exceptions \<open>E\<close>) have been.
\<close>

lemma low_discovered:
  assumes st: "validHex R st" "st \<in> Cl \<union> Nd"
    and cl: "\<forall>c\<in>Cl - E. nbrs R c \<subseteq> Cl \<union> Nd"
    and far: "\<forall>y\<in>Nd \<union> E. k \<le> distFrom st y"
    and x: "validHex R x" "distFrom st x \<le> k"
  shows "x \<in> Cl \<union> Nd"
  using x
proof (induction "nat (distFrom st x)" arbitrary: x rule: less_induct)
  case less
  show ?case
  proof (cases "x = st")
    case True
    with st show ?thesis by simp
  next
    case False
    from nbrs_closer [OF less.prems(1) st(1) False] obtain y where
      y: "y \<in> nbrs R x" "distFrom st y = distFrom st x - 1" by blast
    have pos: "0 < distFrom st x"
      using False distFrom_nonneg [of st x] distFrom_zero_iff [of st x] by linarith
    have "nat (distFrom st y) < nat (distFrom st x)" using y(2) pos by simp
    moreover have "validHex R y" using y(1) by (rule nbrs_valid)
    moreover have "distFrom st y \<le> k" using y(2) less.prems(2) by simp
    ultimately have yd: "y \<in> Cl \<union> Nd" by (rule less.hyps)
    have "y \<notin> Nd \<union> E"
    proof
      assume "y \<in> Nd \<union> E"
      with far have "k \<le> distFrom st y" by blast
      with y(2) less.prems(2) show False by simp
    qed
    with yd have "y \<in> Cl - E" by blast
    with cl have "nbrs R y \<subseteq> Cl \<union> Nd" by blast
    moreover have "x \<in> nbrs R y" using y(1) less.prems(1) by (rule nbrs_sym)
    ultimately show ?thesis by blast
  qed
qed

text \<open>Path reconstruction along a predecessor map that steps one closer to the start.\<close>

lemma reconstructPath_chain:
  assumes dom: "dom cf = Dsc - {st}"
    and par: "\<forall>x p. cf x = Some p \<longrightarrow> p \<in> Dsc \<and> x \<in> nbrs R p \<and> distFrom st x = distFrom st p + 1"
    and x: "x \<in> Dsc"
  shows "\<exists>chain. reconstructPath cf x acc = Some (chain @ acc)
           \<and> chain \<noteq> [] \<and> hd chain = st \<and> last chain = x
           \<and> int (length chain) = distFrom st x + 1
           \<and> stepwise R chain"
  using x
proof (induction "nat (distFrom st x)" arbitrary: x acc rule: less_induct)
  case less
  show ?case
  proof (cases "x = st")
    case True
    then have "cf x = None" using dom by blast
    then have "reconstructPath cf x acc = Some ([st] @ acc)"
      using True by (subst reconstructPath.simps) simp
    then show ?thesis using True by (intro exI [of _ "[st]"]) (simp add: distFrom_zero_iff)
  next
    case False
    with less.prems dom obtain p where p: "cf x = Some p" by blast
    with par have pp: "p \<in> Dsc" "x \<in> nbrs R p" "distFrom st x = distFrom st p + 1" by blast+
    have "nat (distFrom st p) < nat (distFrom st x)"
      using pp(3) distFrom_nonneg [of st p] by simp
    from less.hyps [OF this pp(1), of "x # acc"] obtain chain where
      ch: "reconstructPath cf p (x # acc) = Some (chain @ x # acc)"
          "chain \<noteq> []" "hd chain = st" "last chain = p"
          "int (length chain) = distFrom st p + 1" "stepwise R chain"
      by blast
    have step: "stepwise R (chain @ [x])"
      using ch(2,4,6) pp(2)
    proof (induction chain rule: stepwise.induct[where ?a0.0 = R])
      case (1 R)
      then show ?case by simp
    next
      case (2 R y)
      then show ?case by (simp add: nbrs_def)
    next
      case (3 R a b zs)
      then show ?case by simp
    qed
    have "reconstructPath cf x acc = Some ((chain @ [x]) @ acc)"
      using p ch(1) by (subst reconstructPath.simps) simp
    then show ?thesis
      using ch(2,3,5) pp(3) step
      by (intro exI [of _ "chain @ [x]"]) simp
  qed
qed

lemma orInfinity_step:
  assumes "\<forall>x g. gs x = Some g \<longrightarrow> g = 0 \<or> g = \<infinity>"
  shows "orInfinity (gs c) + 1 = \<infinity>"
proof (cases "gs c")
  case None
  then show ?thesis by (simp add: orInfinity_def)
next
  case (Some a)
  with assms have "a = 0 \<or> a = \<infinity>" by blast
  with Some show ?thesis by (auto simp: orInfinity_def)
qed

text \<open>A neighbor that is already discovered is skipped.\<close>

lemma visitNeighbor_known:
  assumes g: "\<forall>x g. gScore s x = Some g \<longrightarrow> g = 0 \<or> g = \<infinity>"
    and d: "dom (gScore s) = discovered s" and n: "n \<in> discovered s"
  shows "visitNeighbor c gq gr [] s n = s"
proof -
  from d n obtain e where e: "gScore s n = Some e" by blast
  with g have "e = 0 \<or> e = \<infinity>" by blast
  then have "\<not> (\<infinity> :: enat) < e" by auto
  with e orInfinity_step [OF g, of c] show ?thesis
    by (simp add: visitNeighbor_def Let_def)
qed

text \<open>A neighbor that is not yet discovered is appended with infinite scores.\<close>

lemma visitNeighbor_new:
  assumes g: "\<forall>x g. gScore s x = Some g \<longrightarrow> g = 0 \<or> g = \<infinity>"
    and d: "dom (gScore s) = discovered s" and n: "n \<notin> discovered s"
  shows "visitNeighbor c gq gr [] s n =
           s\<lparr>cameFrom := (cameFrom s)(n \<mapsto> c), gScore := (gScore s)(n \<mapsto> \<infinity>),
             fScore := (fScore s)(n \<mapsto> \<infinity>), openSet := openSet s @ [(n, \<infinity>)]\<rparr>"
proof -
  from d n have e: "gScore s n = None" by blast
  from n have nc: "n \<notin> closedSet s" and no: "\<not> list_ex (\<lambda>m. fst m = n) (openSet s)"
    by (auto simp: discovered_def nodes_def list_ex_iff)
  from e nc no orInfinity_step [OF g, of c] show ?thesis
    by (simp add: visitNeighbor_def Let_def isBlocked_def)
qed

lemma bfsCommonD:
  assumes "bfsCommon R st goal s"
  shows "distinct (map fst (openSet s))"
    and "nodes s \<subseteq> Collect (validHex R)" and "closedSet s \<subseteq> Collect (validHex R)"
    and "nodes s \<inter> closedSet s = {}"
    and "dom (gScore s) = discovered s"
    and "\<forall>x g. gScore s x = Some g \<longrightarrow> g = 0 \<or> g = \<infinity>"
    and "sorted (map snd (openSet s))"
    and "sorted (map (distFrom st \<circ> fst) (openSet s))"
    and "dom (cameFrom s) = discovered s - {st}"
    and "\<forall>x p. cameFrom s x = Some p \<longrightarrow>
            p \<in> closedSet s \<and> x \<in> nbrs R p \<and> distFrom st x = distFrom st p + 1"
    and "st \<in> discovered s" and "goal \<notin> closedSet s"
  using assms unfolding bfsCommon_def by simp_all

lemma bfsMidD:
  assumes "bfsMid R st goal c s"
  shows "bfsCommon R st goal s" and "c \<in> closedSet s" and "st \<in> closedSet s"
    and "\<forall>x\<in>nodes s. distFrom st c \<le> distFrom st x \<and> distFrom st x \<le> distFrom st c + 1"
    and "\<forall>x\<in>closedSet s. distFrom st x \<le> distFrom st c"
    and "\<forall>c'\<in>closedSet s - {c}. nbrs R c' \<subseteq> discovered s"
  using assms unfolding bfsMid_def by simp_all

lemma bfsTopD:
  assumes "bfsTop R st goal s"
  shows "bfsCommon R st goal s"
    and "\<forall>x\<in>nodes s. \<forall>y\<in>nodes s. distFrom st x \<le> distFrom st y + 1"
    and "\<forall>c\<in>closedSet s. \<forall>x\<in>nodes s. distFrom st c \<le> distFrom st x"
    and "\<forall>c\<in>closedSet s. nbrs R c \<subseteq> discovered s"
  using assms unfolding bfsTop_def by simp_all

lemma new_neighbor_distance:
  assumes inv: "bfsMid R st goal c s" and st: "validHex R st"
    and n: "n \<in> nbrs R c" "n \<notin> discovered s"
  shows "distFrom st n = distFrom st c + 1"
proof -
  note m = bfsMidD [OF inv] and cm = bfsCommonD [OF bfsMidD(1) [OF inv]]
  have "\<not> distFrom st n \<le> distFrom st c"
  proof
    assume le: "distFrom st n \<le> distFrom st c"
    have "n \<in> closedSet s \<union> nodes s"
    proof (rule low_discovered [where E = "{c}" and k = "distFrom st c" and st = st and R = R])
      show "validHex R st" by (rule st)
      show "st \<in> closedSet s \<union> nodes s" using m(3) by simp
      show "\<forall>c'\<in>closedSet s - {c}. nbrs R c' \<subseteq> closedSet s \<union> nodes s"
        using m(6) by (simp add: discovered_def)
      show "\<forall>y\<in>nodes s \<union> {c}. distFrom st c \<le> distFrom st y" using m(4) by simp
      show "validHex R n" using n(1) by (rule nbrs_valid)
      show "distFrom st n \<le> distFrom st c" by (rule le)
    qed
    with n(2) show False by (simp add: discovered_def)
  qed
  with nbrs_step [OF n(1), of st] show ?thesis by linarith
qed

lemma visitNeighbor_bfsMid:
  assumes inv: "bfsMid R st goal c s" and st: "validHex R st" and n: "n \<in> nbrs R c"
  shows "bfsMid R st goal c (visitNeighbor c gq gr [] s n)
         \<and> n \<in> discovered (visitNeighbor c gq gr [] s n)
         \<and> discovered s \<subseteq> discovered (visitNeighbor c gq gr [] s n)"
proof (cases "n \<in> discovered s")
  case True
  note m = bfsMidD [OF inv] and cm = bfsCommonD [OF bfsMidD(1) [OF inv]]
  from visitNeighbor_known [OF cm(6) cm(5) True] inv True show ?thesis by simp
next
  case False
  note m = bfsMidD [OF inv] and cm = bfsCommonD [OF bfsMidD(1) [OF inv]]
  define s' where "s' = s\<lparr>cameFrom := (cameFrom s)(n \<mapsto> c), gScore := (gScore s)(n \<mapsto> \<infinity>),
             fScore := (fScore s)(n \<mapsto> \<infinity>), openSet := openSet s @ [(n, \<infinity>)]\<rparr>"
  have res: "visitNeighbor c gq gr [] s n = s'"
    unfolding s'_def by (rule visitNeighbor_new [OF cm(6) cm(5) False])
  have dn: "distFrom st n = distFrom st c + 1"
    by (rule new_neighbor_distance [OF inv st n False])
  have nv: "validHex R n" using n by (rule nbrs_valid)
  have nn: "n \<notin> nodes s" "n \<notin> closedSet s" using False by (simp_all add: discovered_def)
  have nst: "n \<noteq> st" using m(3) nn(2) by blast
  have f: "openSet s' = openSet s @ [(n, \<infinity>)]" "closedSet s' = closedSet s"
    "cameFrom s' = (cameFrom s)(n \<mapsto> c)" "gScore s' = (gScore s)(n \<mapsto> \<infinity>)"
    by (simp_all add: s'_def)
  have nd: "nodes s' = insert n (nodes s)" by (simp add: nodes_def f)
  have ds: "discovered s' = insert n (discovered s)" by (simp add: discovered_def nd f)
  have c1: "distinct (map fst (openSet s'))"
    using cm(1) nn(1) by (simp add: f nodes_def)
  have c2: "nodes s' \<subseteq> Collect (validHex R)" using cm(2) nv by (simp add: nd)
  have c3: "closedSet s' \<subseteq> Collect (validHex R)" using cm(3) by (simp add: f)
  have c4: "nodes s' \<inter> closedSet s' = {}" using cm(4) nn(2) by (simp add: nd f)
  have c5: "dom (gScore s') = discovered s'" using cm(5) by (simp add: f ds)
  have c6: "\<forall>x g. gScore s' x = Some g \<longrightarrow> g = 0 \<or> g = \<infinity>"
    using cm(6) by (simp add: f)
  have c7: "sorted (map snd (openSet s'))"
    using cm(7) by (simp add: f sorted_append)
  have c8: "sorted (map (distFrom st \<circ> fst) (openSet s'))"
  proof -
    have "\<forall>x\<in>set (openSet s). distFrom st (fst x) \<le> distFrom st n"
      using m(4) dn by (simp add: nodes_def)
    with cm(8) show ?thesis by (simp add: f sorted_append)
  qed
  have c9: "dom (cameFrom s') = discovered s' - {st}"
    using cm(9) nst by (auto simp: f ds)
  have c10: "\<forall>x p. cameFrom s' x = Some p \<longrightarrow>
            p \<in> closedSet s' \<and> x \<in> nbrs R p \<and> distFrom st x = distFrom st p + 1"
  proof (intro allI impI)
    fix x p assume a: "cameFrom s' x = Some p"
    show "p \<in> closedSet s' \<and> x \<in> nbrs R p \<and> distFrom st x = distFrom st p + 1"
    proof (cases "x = n")
      case True
      with a have "p = c" by (simp add: f)
      with True m(2) n dn show ?thesis by (simp add: f)
    next
      case False
      with a have "cameFrom s x = Some p" by (simp add: f)
      with cm(10) have "p \<in> closedSet s \<and> x \<in> nbrs R p \<and> distFrom st x = distFrom st p + 1"
        by blast
      then show ?thesis by (simp add: f)
    qed
  qed
  have c11: "st \<in> discovered s'" using cm(11) by (simp add: ds)
  have c12: "goal \<notin> closedSet s'" using cm(12) by (simp add: f)
  have common: "bfsCommon R st goal s'"
    unfolding bfsCommon_def using c1 c2 c3 c4 c5 c6 c7 c8 c9 c10 c11 c12 by (intro conjI)
  have m2: "c \<in> closedSet s'" "st \<in> closedSet s'" using m(2,3) by (simp_all add: f)
  have m4: "\<forall>x\<in>nodes s'. distFrom st c \<le> distFrom st x \<and> distFrom st x \<le> distFrom st c + 1"
    using m(4) dn by (simp add: nd)
  have m5: "\<forall>x\<in>closedSet s'. distFrom st x \<le> distFrom st c" using m(5) by (simp add: f)
  have m6: "\<forall>c'\<in>closedSet s' - {c}. nbrs R c' \<subseteq> discovered s'"
    using m(6) by (auto simp: f ds)
  have "bfsMid R st goal c s'"
    unfolding bfsMid_def using common m2 m4 m5 m6 by (intro conjI)
  then show ?thesis by (simp add: res ds subset_insertI)
qed

lemma visitNeighbors_bfsMid:
  assumes "bfsMid R st goal c s" and "validHex R st" and "set ns \<subseteq> nbrs R c"
  shows "bfsMid R st goal c (visitNeighbors c gq gr [] s ns)
         \<and> set ns \<union> discovered s \<subseteq> discovered (visitNeighbors c gq gr [] s ns)"
  using assms
proof (induction ns arbitrary: s)
  case Nil
  then show ?case by simp
next
  case (Cons n ns)
  from Cons.prems have n: "n \<in> nbrs R c" and ns: "set ns \<subseteq> nbrs R c" by simp_all
  from visitNeighbor_bfsMid [OF Cons.prems(1,2) n, of gq gr]
  have one: "bfsMid R st goal c (visitNeighbor c gq gr [] s n)"
    "n \<in> discovered (visitNeighbor c gq gr [] s n)"
    "discovered s \<subseteq> discovered (visitNeighbor c gq gr [] s n)" by simp_all
  from Cons.IH [OF one(1) Cons.prems(2) ns]
  have rest: "bfsMid R st goal c (visitNeighbors c gq gr [] (visitNeighbor c gq gr [] s n) ns)"
    "set ns \<union> discovered (visitNeighbor c gq gr [] s n)
       \<subseteq> discovered (visitNeighbors c gq gr [] (visitNeighbor c gq gr [] s n) ns)"
    by simp_all
  from one(2,3) rest(2)
  have "set (n # ns) \<union> discovered s
       \<subseteq> discovered (visitNeighbors c gq gr [] (visitNeighbor c gq gr [] s n) ns)"
    by auto
  with rest(1) show ?case by simp
qed

lemma bfsTop_pop:
  assumes top: "bfsTop R st goal s" and so: "sort_key snd (openSet s) = c # rem"
    and ng: "fst c \<noteq> goal"
  shows "bfsMid R st goal (fst c) (s\<lparr>openSet := rem, closedSet := insert (fst c) (closedSet s)\<rparr>)"
proof -
  note t = bfsTopD [OF top] and cm = bfsCommonD [OF bfsTopD(1) [OF top]]
  define s1 where "s1 = s\<lparr>openSet := rem, closedSet := insert (fst c) (closedSet s)\<rparr>"
  have op: "openSet s = c # rem"
    using so sort_key_id_if_sorted [OF cm(7)] by simp
  have f: "openSet s1 = rem" "closedSet s1 = insert (fst c) (closedSet s)"
    "cameFrom s1 = cameFrom s" "gScore s1 = gScore s"
    by (simp_all add: s1_def)
  have nd: "nodes s = insert (fst c) (nodes s1)" by (simp add: nodes_def f op)
  have cn: "fst c \<notin> nodes s1" using cm(1) by (simp add: nodes_def f op)
  have ds: "discovered s1 = discovered s" by (auto simp: discovered_def nd f)
  have head: "\<forall>x\<in>nodes s1. distFrom st (fst c) \<le> distFrom st x"
    using cm(8) by (simp add: op nodes_def f)
  have c1: "distinct (map fst (openSet s1))" using cm(1) by (simp add: f op)
  have c2: "nodes s1 \<subseteq> Collect (validHex R)" using cm(2) by (simp add: nd)
  have c3: "closedSet s1 \<subseteq> Collect (validHex R)" using cm(2,3) by (simp add: nd f)
  have c4: "nodes s1 \<inter> closedSet s1 = {}" using cm(4) cn by (auto simp: nd f)
  have c5: "dom (gScore s1) = discovered s1" using cm(5) by (simp add: f ds)
  have c6: "\<forall>x g. gScore s1 x = Some g \<longrightarrow> g = 0 \<or> g = \<infinity>"
    using cm(6) by (simp add: f)
  have c7: "sorted (map snd (openSet s1))" using cm(7) by (simp add: f op)
  have c8: "sorted (map (distFrom st \<circ> fst) (openSet s1))" using cm(8) by (simp add: f op)
  have c9: "dom (cameFrom s1) = discovered s1 - {st}" using cm(9) by (simp add: f ds)
  have c10: "\<forall>x p. cameFrom s1 x = Some p \<longrightarrow>
            p \<in> closedSet s1 \<and> x \<in> nbrs R p \<and> distFrom st x = distFrom st p + 1"
    using cm(10) by (simp add: f)
  have c11: "st \<in> discovered s1" using cm(11) by (simp add: ds)
  have c12: "goal \<notin> closedSet s1" using cm(12) ng by (auto simp: f)
  have common: "bfsCommon R st goal s1"
    unfolding bfsCommon_def using c1 c2 c3 c4 c5 c6 c7 c8 c9 c10 c11 c12 by (intro conjI)
  have m2: "fst c \<in> closedSet s1" by (simp add: f)
  have m3: "st \<in> closedSet s1"
  proof (cases "st \<in> nodes s1")
    case True
    with head have "distFrom st (fst c) \<le> distFrom st st" by blast
    then have "distFrom st (fst c) = 0"
      using distFrom_nonneg [of st "fst c"] distFrom_zero_iff [of st st] by simp
    then show ?thesis by (simp add: distFrom_zero_iff f)
  next
    case False
    with cm(11) show ?thesis by (auto simp: discovered_def nd f)
  qed
  have m4: "\<forall>x\<in>nodes s1. distFrom st (fst c) \<le> distFrom st x
                \<and> distFrom st x \<le> distFrom st (fst c) + 1"
    using head t(2) by (simp add: nd)
  have m5: "\<forall>x\<in>closedSet s1. distFrom st x \<le> distFrom st (fst c)"
    using t(3) by (simp add: nd f)
  have m6: "\<forall>c'\<in>closedSet s1 - {fst c}. nbrs R c' \<subseteq> discovered s1"
    using t(4) by (auto simp: f ds)
  show ?thesis
    unfolding bfsMid_def s1_def [symmetric] using common m2 m3 m4 m5 m6 by (intro conjI)
qed

lemma bfsMid_finish:
  assumes mid: "bfsMid R st goal c s" and all: "nbrs R c \<subseteq> discovered s"
  shows "bfsTop R st goal s"
proof -
  note m = bfsMidD [OF mid]
  have t2: "\<forall>x\<in>nodes s. \<forall>y\<in>nodes s. distFrom st x \<le> distFrom st y + 1"
  proof (intro ballI)
    fix x y assume "x \<in> nodes s" "y \<in> nodes s"
    with m(4) have "distFrom st x \<le> distFrom st c + 1" "distFrom st c \<le> distFrom st y"
      by blast+
    then show "distFrom st x \<le> distFrom st y + 1" by simp
  qed
  have t3: "\<forall>a\<in>closedSet s. \<forall>x\<in>nodes s. distFrom st a \<le> distFrom st x"
  proof (intro ballI)
    fix a x assume "a \<in> closedSet s" "x \<in> nodes s"
    with m(4,5) have "distFrom st a \<le> distFrom st c" "distFrom st c \<le> distFrom st x"
      by blast+
    then show "distFrom st a \<le> distFrom st x" by simp
  qed
  have t4: "\<forall>a\<in>closedSet s. nbrs R a \<subseteq> discovered s"
    using m(6) all by blast
  show ?thesis unfolding bfsTop_def using m(1) t2 t3 t4 by (intro conjI)
qed

lemma bfsTop_initial:
  assumes "validHex R st"
  shows "bfsTop R st goal
           \<lparr>openSet = [(st, h)], closedSet = {}, cameFrom = Map.empty,
            gScore = [st \<mapsto> 0], fScore = [st \<mapsto> h]\<rparr>"
  using assms
  by (simp add: bfsTop_def bfsCommon_def nodes_def discovered_def)

text \<open>
  Without obstacles the search is a breadth-first search, and between two valid
  coordinates it returns a walk whose length is their distance.
\<close>

lemma findPath_no_obstacles:
  assumes st: "validHex R st" and goal: "validHex R goal"
  shows "\<exists>path. findPath R (fst st) (snd st) (fst goal) (snd goal) [] = Some (Path path)
           \<and> int (length path) = distFrom st goal
           \<and> stepwise R (st # path) \<and> last (st # path) = goal"
proof -
  let ?Q = "\<lambda>res. \<exists>path. res = Path path \<and> int (length path) = distFrom st goal
                \<and> stepwise R (st # path) \<and> last (st # path) = goal"
  let ?s0 = "\<lparr>openSet = [(st, enat (nat (getDistance (fst st) (snd st) (fst goal) (snd goal))))],
             closedSet = {}, cameFrom = Map.empty, gScore = [st \<mapsto> 0],
             fScore = [st \<mapsto> enat (nat (getDistance (fst st) (snd st) (fst goal) (snd goal)))]\<rparr>"
  have "\<exists>res. searchLoop R (fst goal) (snd goal) [] ?s0 = Some res \<and> ?Q res"
  proof (rule searchLoop_rule [where U = "Collect (validHex R)" and I = "bfsTop R st goal"])
    show "finite (Collect (validHex R))"
    proof -
      have "Collect (validHex R) = {h. isValidHex R (fst h) (snd h)}"
        by (auto simp: validHex_def)
      then show ?thesis using finite_valid [of R] by simp
    qed
    show "bfsTop R st goal ?s0" by (rule bfsTop_initial [OF st])
  next
    fix s :: search and c rem
    assume top: "bfsTop R st goal s" and so: "sort_key snd (openSet s) = c # rem"
    note cm = bfsCommonD [OF bfsTopD(1) [OF top]]
    from sorted_open_head(1) [OF so] have "fst c \<in> nodes s" by (simp add: nodes_def)
    with cm(2,4) show "fst c \<in> Collect (validHex R) \<and> fst c \<notin> closedSet s" by blast
  next
    fix s :: search and c rem
    assume top: "bfsTop R st goal s" and so: "sort_key snd (openSet s) = c # rem"
      and ng: "fst c \<noteq> (fst goal, snd goal)"
    let ?s1 = "s\<lparr>openSet := rem, closedSet := insert (fst c) (closedSet s)\<rparr>"
    let ?ns = "getNeighbors R (fst (fst c)) (snd (fst c))"
    from ng have "fst c \<noteq> goal" by simp
    from bfsTop_pop [OF top so this] have mid: "bfsMid R st goal (fst c) ?s1" .
    have "set ?ns \<subseteq> nbrs R (fst c)" by (simp add: nbrs_def)
    from visitNeighbors_bfsMid [OF mid st this, of "fst goal" "snd goal"]
    have "bfsMid R st goal (fst c) (visitNeighbors (fst c) (fst goal) (snd goal) [] ?s1 ?ns)"
      and "nbrs R (fst c) \<subseteq> discovered (visitNeighbors (fst c) (fst goal) (snd goal) [] ?s1 ?ns)"
      by (simp_all add: nbrs_def)
    then show "bfsTop R st goal (visitNeighbors (fst c) (fst goal) (snd goal) [] ?s1 ?ns)"
      by (rule bfsMid_finish)
  next
    fix s :: search and c rem
    assume top: "bfsTop R st goal s" and so: "sort_key snd (openSet s) = c # rem"
      and g: "fst c = (fst goal, snd goal)"
    note cm = bfsCommonD [OF bfsTopD(1) [OF top]]
    from sorted_open_head(1) [OF so] g have gd: "goal \<in> discovered s"
      by (auto simp: nodes_def discovered_def image_iff)
    have par: "\<forall>x p. cameFrom s x = Some p \<longrightarrow>
                 p \<in> discovered s \<and> x \<in> nbrs R p \<and> distFrom st x = distFrom st p + 1"
      using cm(10) by (auto simp: discovered_def)
    from reconstructPath_chain [OF cm(9) par gd, of "[]"] obtain chain where
      ch: "reconstructPath (cameFrom s) goal [] = Some chain" "chain \<noteq> []" "hd chain = st"
          "last chain = goal" "int (length chain) = distFrom st goal + 1" "stepwise R chain"
      by auto
    from ch(2,3) have split: "chain = st # tl chain" by (cases chain) simp_all
    have "int (length (tl chain)) = distFrom st goal" using ch(2,5) by (cases chain) simp_all
    moreover have "stepwise R (st # tl chain)" using ch(6) split by simp
    moreover have "last (st # tl chain) = goal" using ch(4) split by simp
    ultimately show "\<exists>path. reconstructPath (cameFrom s) (fst goal, snd goal) [] = Some path
                       \<and> ?Q (Path (tl path))"
      using ch(1) by simp
  next
    fix s :: search
    assume top: "bfsTop R st goal s" and e: "openSet s = []"
    note t = bfsTopD [OF top] and cm = bfsCommonD [OF bfsTopD(1) [OF top]]
    have "goal \<in> closedSet s \<union> nodes s"
    proof (rule low_discovered [where E = "{}" and k = "distFrom st goal" and st = st and R = R])
      show "validHex R st" by (rule st)
      show "st \<in> closedSet s \<union> nodes s" using cm(11) by (simp add: discovered_def)
      show "\<forall>c\<in>closedSet s - {}. nbrs R c \<subseteq> closedSet s \<union> nodes s"
        using t(4) by (simp add: discovered_def)
      show "\<forall>y\<in>nodes s \<union> {}. distFrom st goal \<le> distFrom st y" using e by (simp add: nodes_def)
      show "validHex R goal" by (rule goal)
      show "distFrom st goal \<le> distFrom st goal" by simp
    qed
    with e cm(12) have False by (simp add: nodes_def)
    then show "?Q NoPath" ..
  qed
  then obtain path where "searchLoop R (fst goal) (snd goal) [] ?s0 = Some (Path path)"
    "int (length path) = distFrom st goal" "stepwise R (st # path)" "last (st # path) = goal"
    by blast
  then show ?thesis unfolding findPath_def Let_def prod.collapse by blast
qed

text \<open>
  C1: for valid coordinates start and goal at hex distance \<open>d\<close>, \<open>findPath\<close> with
  no obstacles returns a path, never none; the path has length exactly \<open>d\<close>; it holds
  the coordinates after the start in traversal order: each is a neighbor of the one
  before it, the first a neighbor of the start; it ends at the goal; and it is empty
  exactly when start and goal are equal.
\<close>

theorem C1_shortest_path:
  assumes "isValidHex radius startQ startR" and "isValidHex radius endQ endR"
  shows "\<exists>path. findPath radius startQ startR endQ endR [] = Some (Path path)
           \<and> int (length path) = getDistance startQ startR endQ endR
           \<and> stepwise radius ((startQ, startR) # path)
           \<and> last ((startQ, startR) # path) = (endQ, endR)
           \<and> (if startQ = endQ \<and> startR = endR then path = [] else path \<noteq> [])"
proof -
  from findPath_no_obstacles [of radius "(startQ, startR)" "(endQ, endR)"] assms
  obtain path where p: "findPath radius startQ startR endQ endR [] = Some (Path path)"
    "int (length path) = getDistance startQ startR endQ endR"
    "stepwise radius ((startQ, startR) # path)" "last ((startQ, startR) # path) = (endQ, endR)"
    by (auto simp: validHex_def distFrom_def)
  have "path = [] \<longleftrightarrow> startQ = endQ \<and> startR = endR"
    using p(2) getDistance_zero_iff [of startQ startR endQ endR] by auto
  with p show ?thesis by auto
qed

theorem C1_shortest_path_witness:
  "isValidHex 5 0 0 \<and> isValidHex 5 3 (- 1)
   \<and> (\<exists>path. findPath 5 0 0 3 (- 1) [] = Some (Path path)
         \<and> int (length path) = 3
         \<and> stepwise 5 ((0, 0) # path)
         \<and> last ((0, 0) # path) = (3, - 1)
         \<and> path \<noteq> [])"
proof -
  have v: "isValidHex 5 0 0" "isValidHex 5 3 (- 1)"
    by (simp_all add: isValidHex_iff)
  have d: "getDistance 0 0 3 (- 1) = 3" by (simp add: getDistance_def)
  from C1_shortest_path [OF v] v show ?thesis unfolding d by simp
qed

end
